theory Spec2Isabelle
  imports Complex_Main "HOL-Library.Log_Nat"
begin

section \<open>Python strings\<close>

text \<open>
  A Python \<open>str\<close> is modelled as a \<open>string\<close>, one \<open>char\<close> per character, so that
  \<open>length\<close> is Python's \<open>len\<close>.  A \<open>char\<close> has 256 values: the model covers the strings
  whose code points are below 256, and the character classes below are Python's on that range.
\<close>

text \<open>\<open>str.isspace\<close> on one character: the code points 9-13, 28-32, 133 and 160.\<close>

definition isspace :: "char \<Rightarrow> bool" where
  "isspace c \<longleftrightarrow> c \<in> set [CHR 0x09, CHR 0x0A, CHR 0x0B, CHR 0x0C, CHR 0x0D,
      CHR 0x1C, CHR 0x1D, CHR 0x1E, CHR 0x1F, CHR 0x20, CHR 0x85, CHR 0xA0]"

text \<open>
  \<open>text.split()\<close> with no argument: the maximal runs of characters that are not whitespace,
  in order; no empty token.  \<open>split_acc cur s\<close> scans \<open>s\<close> with the token under construction.
\<close>

fun split_acc :: "string \<Rightarrow> string \<Rightarrow> string list" where
  "split_acc cur [] = (if cur = [] then [] else [cur])"
| "split_acc cur (c # cs) =
     (if isspace c then (if cur = [] then split_acc [] cs else cur # split_acc [] cs)
      else split_acc (cur @ [c]) cs)"

definition str_split :: "string \<Rightarrow> string list" where
  "str_split s = split_acc [] s"

text \<open>\<open>sep.join(xs)\<close>.\<close>

fun join :: "string \<Rightarrow> string list \<Rightarrow> string" where
  "join sep [] = []"
| "join sep [x] = x"
| "join sep (x # y # ys) = x @ sep @ join sep (y # ys)"

text \<open>\<open>s.split(c)\<close> for a separator of one character: never the empty list.\<close>

fun split_sep :: "char \<Rightarrow> string \<Rightarrow> string list" where
  "split_sep c [] = [[]]"
| "split_sep c (x # xs) =
     (if x = c then [] # split_sep c xs
      else (case split_sep c xs of [] \<Rightarrow> [[x]] | l # ls \<Rightarrow> (x # l) # ls))"

text \<open>\<open>s.strip()\<close> with no argument removes whitespace at both ends.\<close>

definition lstrip :: "string \<Rightarrow> string" where
  "lstrip s = dropWhile isspace s"

definition rstrip :: "string \<Rightarrow> string" where
  "rstrip s = rev (dropWhile isspace (rev s))"

definition strip :: "string \<Rightarrow> string" where
  "strip s = rstrip (lstrip s)"

definition newline :: string where
  "newline = [CHR 0x0A]"

section \<open>The cue wrapper: \<open>SRTFormatter._wrap_text\<close>\<close>

text \<open>
  One pass of the loop body over \<open>word\<close>.  The state is the pair of the source's two lists,
  \<open>lines\<close> and \<open>current_line\<close>.  \<open>current_line.pop()\<close> is \<open>butlast\<close>.
\<close>

definition wrap_step :: "int \<Rightarrow> string list \<times> string list \<Rightarrow> string \<Rightarrow> string list \<times> string list" where
  "wrap_step max_width st word =
     (let lines = fst st;
          current_line = snd st @ [word]
      in if int (length (join '' '' current_line)) > max_width then
           (if length current_line > 1
            then (lines @ [join '' '' (butlast current_line)], [word])
            else (lines @ [word], []))
         else (lines, current_line))"

definition wrap_lines :: "string \<Rightarrow> int \<Rightarrow> string list" where
  "wrap_lines text max_width =
     (let words = str_split text;
          st = foldl (wrap_step max_width) ([], []) words
      in if snd st \<noteq> [] then fst st @ [join '' '' (snd st)] else fst st)"

definition wrap_text :: "string \<Rightarrow> int \<Rightarrow> string" where
  "wrap_text text max_width = join newline (wrap_lines text max_width)"

section \<open>Integers to text\<close>

definition digit_char :: "nat \<Rightarrow> char" where
  "digit_char d = ''0123456789'' ! (d mod 10)"

text \<open>\<open>str(n)\<close> for \<open>n \<ge> 0\<close>: the decimal digits, most significant first.\<close>

function str_nat :: "nat \<Rightarrow> string" where
  "str_nat n = (if n < 10 then [digit_char n] else str_nat (n div 10) @ [digit_char (n mod 10)])"
  by pat_completeness auto
termination
  by (relation "measure id") auto

declare str_nat.simps [simp del]

definition str_int :: "int \<Rightarrow> string" where
  "str_int i = (if i < 0 then ''-'' @ str_nat (nat (- i)) else str_nat (nat i))"

text \<open>
  The format specification \<open>0wd\<close> of an f-string (\<open>f"{i:02d}"\<close>, \<open>f"{i:03d}"\<close>): the decimal
  digits padded with zeros on the left to \<open>w\<close> characters, the sign counted in the width and
  put first; a number with more digits is not cut.
\<close>

definition format_0d :: "nat \<Rightarrow> int \<Rightarrow> string" where
  "format_0d w i =
     (let sign = (if i < 0 then ''-'' else []);
          digits = str_nat (nat \<bar>i\<bar>)
      in sign @ replicate (w - length sign - length digits) (CHR ''0'') @ digits)"

section \<open>Floats\<close>

text \<open>
  A finite Python \<open>float\<close> is an IEEE 754 double: \<open>PyFloat m e\<close> stands for the number
  \<open>m * 2 ^ e\<close>, and \<open>is_double\<close> says that the pair is within the format (53 bits of
  significand, exponents from the subnormals upwards).  Infinities and NaN are not modelled.
\<close>

datatype pyfloat = PyFloat (mant: int) (expo: int)

definition valof :: "pyfloat \<Rightarrow> rat" where
  "valof x = of_int (mant x) * 2 powi (expo x)"

definition is_double :: "pyfloat \<Rightarrow> bool" where
  "is_double x \<longleftrightarrow> \<bar>mant x\<bar> < 2 ^ 53 \<and> - 1074 \<le> expo x \<and> expo x \<le> 971"

text \<open>\<open>ilog2 q\<close> is the integer \<open>k\<close> with \<open>2 ^ k \<le> q < 2 ^ (k + 1)\<close>, for \<open>q > 0\<close>.\<close>

definition ilog2 :: "rat \<Rightarrow> int" where
  "ilog2 q =
     (let k = bitlen (fst (quotient_of q)) - bitlen (snd (quotient_of q))
      in if 2 powi k \<le> q then k else k - 1)"

definition round_half_even :: "rat \<Rightarrow> int" where
  "round_half_even x =
     (let f = \<lfloor>x\<rfloor>; d = x - of_int f
      in if d < 1 / 2 then f else if 1 / 2 < d then f + 1 else if even f then f else f + 1)"

text \<open>
  The result of an arithmetic operation on doubles is the exact result rounded to the nearest
  double, ties to the even significand: \<open>round_double q\<close>.  The exponent of the unit in the last
  place is \<open>ulp_expo q\<close>.  Overflow to infinity is not modelled: no operation below produces a
  number larger than its operands.
\<close>

definition ulp_expo :: "rat \<Rightarrow> int" where
  "ulp_expo q = max (ilog2 \<bar>q\<bar> - 52) (- 1074)"

definition round_double :: "rat \<Rightarrow> rat" where
  "round_double q =
     (if q = 0 then 0
      else of_int (round_half_even (q / 2 powi (ulp_expo q))) * 2 powi (ulp_expo q))"

text \<open>\<open>int(x)\<close> of a float cuts the fractional part, towards zero.\<close>

definition py_int :: "rat \<Rightarrow> int" where
  "py_int q = (if 0 \<le> q then \<lfloor>q\<rfloor> else \<lceil>q\<rceil>)"

text \<open>
  C's \<open>fmod\<close>, which is exact, and Python's \<open>%\<close> and \<open>//\<close> on floats as the interpreter
  computes them from it (\<open>float_rem\<close> and \<open>float_floor_div\<close>): the remainder takes the sign of
  the divisor, and the quotient is snapped to a whole number.  The divisors below are the
  constants 3600, 60 and 1, so the division by zero that Python raises on does not occur.
\<close>

definition c_fmod :: "rat \<Rightarrow> rat \<Rightarrow> rat" where
  "c_fmod x y = x - y * of_int (py_int (x / y))"

definition float_mod :: "rat \<Rightarrow> rat \<Rightarrow> rat" where
  "float_mod x y =
     (let m = c_fmod x y
      in if m \<noteq> 0 \<and> ((y < 0) \<noteq> (m < 0)) then round_double (m + y) else m)"

definition float_floordiv :: "rat \<Rightarrow> rat \<Rightarrow> rat" where
  "float_floordiv x y =
     (let m = c_fmod x y;
          d0 = round_double (round_double (x - m) / y);
          d = (if m \<noteq> 0 \<and> ((y < 0) \<noteq> (m < 0)) then round_double (d0 - 1) else d0)
      in if d \<noteq> 0 then
           (let f = of_int \<lfloor>d\<rfloor>
            in if 1 / 2 < round_double (d - f) then round_double (f + 1) else f)
         else 0)"

definition float_mul :: "rat \<Rightarrow> rat \<Rightarrow> rat" where
  "float_mul x y = round_double (x * y)"

section \<open>The timestamp codec\<close>

text \<open>The four fields that \<open>seconds_to_srt_time\<close> and \<open>seconds_to_vtt_time\<close> both compute.\<close>

definition hours :: "pyfloat \<Rightarrow> int" where
  "hours seconds = py_int (float_floordiv (valof seconds) 3600)"

definition minutes :: "pyfloat \<Rightarrow> int" where
  "minutes seconds = py_int (float_floordiv (float_mod (valof seconds) 3600) 60)"

definition secs :: "pyfloat \<Rightarrow> int" where
  "secs seconds = py_int (float_mod (valof seconds) 60)"

definition millis :: "pyfloat \<Rightarrow> int" where
  "millis seconds = py_int (float_mul (float_mod (valof seconds) 1) 1000)"

definition seconds_to_srt_time :: "pyfloat \<Rightarrow> string" where
  "seconds_to_srt_time seconds =
     format_0d 2 (hours seconds) @ '':'' @ format_0d 2 (minutes seconds) @ '':''
     @ format_0d 2 (secs seconds) @ '','' @ format_0d 3 (millis seconds)"

definition seconds_to_vtt_time :: "pyfloat \<Rightarrow> string" where
  "seconds_to_vtt_time seconds =
     format_0d 2 (hours seconds) @ '':'' @ format_0d 2 (minutes seconds) @ '':''
     @ format_0d 2 (secs seconds) @ ''.'' @ format_0d 3 (millis seconds)"

section \<open>The data model (\<open>app/models.py\<close>)\<close>

text \<open>
  A JSON-like value, for \<open>raw_response\<close> (\<open>Dict[str, Any]\<close>) and for the document that the
  structured dump builds.  A \<open>dict\<close> keeps its keys in insertion order: an association list.
\<close>

datatype json =
    JNull
  | JBool bool
  | JInt int
  | JFloat pyfloat
  | JStr string
  | JList "json list"
  | JDict "(string \<times> json) list"

record Segment =
  start_time :: pyfloat
  end_time :: pyfloat
  "text" :: string
  speaker :: "string option"
  confidence :: "pyfloat option"

record TranscriptionResult =
  "text" :: string
  language :: string
  segments :: "Segment list"
  duration :: pyfloat
  raw_response :: "(string \<times> json) list option"

section \<open>The renderers (\<open>app/formats.py\<close>)\<close>

text \<open>
  \<open>f"{x:.1f}"\<close>: the exact value of the double rounded to one decimal, ties to even, with the
  sign of a negative number kept.
\<close>

definition format_1f :: "pyfloat \<Rightarrow> string" where
  "format_1f x =
     (let v = valof x;
          t = nat (round_half_even (\<bar>v\<bar> * 10))
      in (if v < 0 then ''-'' else []) @ str_nat (t div 10) @ ''.'' @ str_nat (t mod 10))"


text \<open>
  \<open>MarkdownFormatter.format\<close> reads the clock: \<open>now\<close> is the string that
  \<open>datetime.now().isoformat()\<close> returns during the call.
\<close>

definition md_segment_lines :: "Segment \<Rightarrow> string list" where
  "md_segment_lines segment =
     (let start = seconds_to_srt_time (start_time segment);
          end' = seconds_to_srt_time (end_time segment);
          speaker' = (case speaker segment of
                        None \<Rightarrow> []
                      | Some s \<Rightarrow> if s \<noteq> [] then '' ('' @ s @ '')'' else [])
      in [''**['' @ start @ '' - '' @ end' @ '']** '' @ Segment.text segment @ speaker', []])"

definition md_header_lines :: "string \<Rightarrow> TranscriptionResult \<Rightarrow> string list" where
  "md_header_lines now result =
     [''# Transcript'',
      [],
      ''**Language:** '' @ language result @ '' | **Duration:** '' @ format_1f (duration result)
        @ ''s | **Transcribed:** '' @ now,
      [],
      ''---'',
      []]"

definition MarkdownFormatter_format :: "string \<Rightarrow> TranscriptionResult \<Rightarrow> string" where
  "MarkdownFormatter_format now result =
     join newline (md_header_lines now result @ concat (map md_segment_lines (segments result)))"

definition srt_cue_lines :: "nat \<times> Segment \<Rightarrow> string list" where
  "srt_cue_lines p =
     (let idx = fst p;
          segment = snd p;
          start = seconds_to_srt_time (start_time segment);
          end' = seconds_to_srt_time (end_time segment);
          text' = wrap_text (Segment.text segment) 42
      in [str_int (int idx), start @ '' --> '' @ end', text', []])"

definition SRTFormatter_format :: "TranscriptionResult \<Rightarrow> string" where
  "SRTFormatter_format result =
     strip (join newline (concat (map srt_cue_lines (enumerate 1 (segments result)))))"

definition vtt_cue_lines :: "Segment \<Rightarrow> string list" where
  "vtt_cue_lines segment =
     (let start = seconds_to_vtt_time (start_time segment);
          end' = seconds_to_vtt_time (end_time segment);
          text' = wrap_text (Segment.text segment) 42
      in [start @ '' --> '' @ end', text', []])"

definition VTTFormatter_format :: "TranscriptionResult \<Rightarrow> string" where
  "VTTFormatter_format result =
     strip (join newline ([''WEBVTT'', []] @ concat (map vtt_cue_lines (segments result))))"

text \<open>\<open>d[k] = v\<close> on a \<open>dict\<close>: the value of an existing key is replaced, a new key goes last.\<close>

fun dict_set :: "string \<Rightarrow> json \<Rightarrow> (string \<times> json) list \<Rightarrow> (string \<times> json) list" where
  "dict_set k v [] = [(k, v)]"
| "dict_set k v (p # al) = (if fst p = k then (fst p, v) # al else p # dict_set k v al)"

definition segment_json :: "Segment \<Rightarrow> json" where
  "segment_json segment =
     JDict [(''start'', JFloat (start_time segment)),
            (''end'', JFloat (end_time segment)),
            (''text'', JStr (Segment.text segment)),
            (''speaker'', case speaker segment of None \<Rightarrow> JNull | Some s \<Rightarrow> JStr s),
            (''confidence'', case confidence segment of None \<Rightarrow> JNull | Some c \<Rightarrow> JFloat c)]"

text \<open>
  The dictionary \<open>data\<close> that \<open>JSONFormatter.format\<close> builds.  The guard
  \<open>if result.raw_response:\<close> is Python's truth test: \<open>None\<close> and the empty \<open>dict\<close> are false.
\<close>

definition JSONFormatter_data :: "string \<Rightarrow> TranscriptionResult \<Rightarrow> (string \<times> json) list" where
  "JSONFormatter_data now result =
     (let data =
        [(''metadata'', JDict [(''language'', JStr (language result)),
                                (''duration'', JFloat (duration result)),
                                (''transcribed_at'', JStr now),
                                (''segment_count'', JInt (int (length (segments result))))]),
         (''transcript'', JStr (TranscriptionResult.text result)),
         (''segments'', JList (map segment_json (segments result)))]
      in case raw_response result of
           None \<Rightarrow> data
         | Some raw \<Rightarrow> if raw \<noteq> [] then dict_set ''raw_api_response'' (JDict raw) data else data)"

text \<open>
  \<open>JSONFormatter.format\<close> hands \<open>data\<close> to the library's serialiser,
  \<open>json.dumps(data, indent=2, ensure_ascii=False)\<close>, which is the parameter \<open>dumps\<close>.
\<close>

definition JSONFormatter_format :: "(json \<Rightarrow> string) \<Rightarrow> string \<Rightarrow> TranscriptionResult \<Rightarrow> string" where
  "JSONFormatter_format dumps now result = dumps (JDict (JSONFormatter_data now result))"

section \<open>The registry: \<open>FormatterFactory\<close>\<close>



datatype error =
    ValueError string
  | FileExistsError
  | FileNotFoundError
  | NotADirectoryError






section \<open>Paths and the file system (\<open>pathlib\<close>)\<close>

text \<open>
  A POSIX \<open>Path\<close> is its root (empty for a relative path, \<open>/\<close>, or \<open>//\<close> when the text starts
  with exactly two slashes) and its components.  Parsing a text drops empty components and
  the components \<open>.\<close>, and keeps \<open>..\<close>.
\<close>

datatype path = Path (root: string) (parts: "string list")

definition path_root :: "string \<Rightarrow> string" where
  "path_root s =
     (if take 3 s = ''///'' then ''/''
      else if take 2 s = ''//'' then ''//''
      else if take 1 s = ''/'' then ''/''
      else [])"

definition parse_path :: "string \<Rightarrow> path" where
  "parse_path s =
     Path (path_root s) (filter (\<lambda>p. p \<noteq> [] \<and> p \<noteq> ''.'') (split_sep (CHR ''/'') s))"

text \<open>\<open>str(p)\<close>.\<close>

definition path_str :: "path \<Rightarrow> string" where
  "path_str p =
     (if root p = [] \<and> parts p = [] then ''.'' else root p @ join ''/'' (parts p))"

text \<open>\<open>p / s\<close>: an absolute right operand replaces the left one.\<close>

definition joinpath :: "path \<Rightarrow> string \<Rightarrow> path" where
  "joinpath p s =
     (let q = parse_path s
      in if root q \<noteq> [] then q else Path (root p) (parts p @ parts q))"

definition parent :: "path \<Rightarrow> path" where
  "parent p = Path (root p) (butlast (parts p))"

text \<open>
  The state of the file system: the paths that exist, each with what it is, looked up by the
  components as written (links are not modelled, nor are permissions, and \<open>..\<close> is a name like any other).
  The root and the current directory, the paths with no component, are directories.
\<close>

datatype node = Dir | File

type_synonym fs = "(path \<times> node) list"

definition lookup :: "fs \<Rightarrow> path \<Rightarrow> node option" where
  "lookup fs p = (if parts p = [] then Some Dir else map_of fs p)"

definition is_dir :: "fs \<Rightarrow> path \<Rightarrow> bool" where
  "is_dir fs p \<longleftrightarrow> lookup fs p = Some Dir"

text \<open>\<open>os.mkdir(p)\<close>: creates one directory, in an existing directory.\<close>

definition os_mkdir :: "fs \<Rightarrow> path \<Rightarrow> error + fs" where
  "os_mkdir fs p =
     (if lookup fs p \<noteq> None then Inl FileExistsError
      else case lookup fs (parent p) of
             None \<Rightarrow> Inl FileNotFoundError
           | Some File \<Rightarrow> Inl NotADirectoryError
           | Some Dir \<Rightarrow> Inr ((p, Dir) # fs))"

text \<open>
  \<open>Path.mkdir(parents=False, exist_ok=True)\<close> and \<open>Path.mkdir(parents=True, exist_ok=True)\<close>:
  the library calls \<open>os.mkdir\<close>; on \<open>FileNotFoundError\<close> it creates the parent in the same way
  and tries again without \<open>parents\<close>; another \<open>OSError\<close> is dropped when the path is a directory.
\<close>

definition mkdir_exist_ok :: "fs \<Rightarrow> path \<Rightarrow> error + fs" where
  "mkdir_exist_ok fs p =
     (case os_mkdir fs p of
        Inr fs' \<Rightarrow> Inr fs'
      | Inl FileNotFoundError \<Rightarrow> Inl FileNotFoundError
      | Inl e \<Rightarrow> if is_dir fs p then Inr fs else Inl e)"

function mkdir_parents :: "fs \<Rightarrow> path \<Rightarrow> error + fs" where
  "mkdir_parents fs p =
     (case os_mkdir fs p of
        Inr fs' \<Rightarrow> Inr fs'
      | Inl FileNotFoundError \<Rightarrow>
          if parent p = p then Inl FileNotFoundError
          else (case mkdir_parents fs (parent p) of
                  Inl e \<Rightarrow> Inl e
                | Inr fs' \<Rightarrow> mkdir_exist_ok fs' p)
      | Inl e \<Rightarrow> if is_dir fs p then Inr fs else Inl e)"
  by pat_completeness auto
termination
proof (relation "measure (\<lambda>(fs, p). length (parts p))")
  show "wf (measure (\<lambda>(fs, p). length (parts p)))" by simp
next
  fix fs :: fs and p :: path and e :: error
  assume "parent p \<noteq> p"
  then have "parts p \<noteq> []" by (cases p) (auto simp: parent_def)
  then show "((fs, parent p), fs, p) \<in> measure (\<lambda>(fs, p). length (parts p))"
    by (simp add: parent_def)
qed

declare mkdir_parents.simps [simp del]

section \<open>File names (\<open>app/io_utils.py\<close>)\<close>

text \<open>The class \<open>\w\<close> of a Unicode pattern, on code points below 256.\<close>

definition is_word_char :: "char \<Rightarrow> bool" where
  "is_word_char c =
     (let n = (of_char c :: nat)
      in (48 \<le> n \<and> n \<le> 57) \<or> (65 \<le> n \<and> n \<le> 90) \<or> n = 95 \<or> (97 \<le> n \<and> n \<le> 122)
         \<or> n = 170 \<or> n = 178 \<or> n = 179 \<or> n = 181 \<or> n = 185 \<or> n = 186
         \<or> (188 \<le> n \<and> n \<le> 190) \<or> (192 \<le> n \<and> n \<le> 214) \<or> (216 \<le> n \<and> n \<le> 246)
         \<or> (248 \<le> n \<and> n \<le> 255))"

text \<open>\<open>SAFE_FILENAME_PATTERN.sub("-", s)\<close>, the pattern being \<open>[^\w\-. ]\<close>.\<close>

definition sub_unsafe :: "string \<Rightarrow> string" where
  "sub_unsafe s = map (\<lambda>c. if is_word_char c \<or> c \<in> set ''-. '' then c else CHR ''-'') s"

text \<open>
  \<open>MULTIPLE_DOTS.sub(".", s)\<close> and \<open>MULTIPLE_SPACES.sub(" ", s)\<close>: each run of two or more
  of the character becomes one.
\<close>

fun squeeze :: "char \<Rightarrow> string \<Rightarrow> string" where
  "squeeze c (x # y # zs) =
     (if x = c \<and> y = c then squeeze c (y # zs) else x # squeeze c (y # zs))"
| "squeeze c xs = xs"

text \<open>\<open>s.strip(cs)\<close>, \<open>s.rstrip(cs)\<close>, \<open>s[:n]\<close> and \<open>s.rsplit(" ", 1)[0]\<close>.\<close>

definition rstrip_chars :: "string \<Rightarrow> string \<Rightarrow> string" where
  "rstrip_chars cs s = rev (dropWhile (\<lambda>c. c \<in> set cs) (rev s))"

definition strip_chars :: "string \<Rightarrow> string \<Rightarrow> string" where
  "strip_chars cs s = rstrip_chars cs (dropWhile (\<lambda>c. c \<in> set cs) s)"

definition slice_to :: "int \<Rightarrow> string \<Rightarrow> string" where
  "slice_to n s = (if 0 \<le> n then take (nat n) s else take (nat (int (length s) + n)) s)"

definition rsplit_first :: "char \<Rightarrow> string \<Rightarrow> string" where
  "rsplit_first c s =
     (if c \<in> set s then rev (tl (dropWhile (\<lambda>x. x \<noteq> c) (rev s))) else s)"

definition sanitize_filename :: "string \<Rightarrow> int \<Rightarrow> string" where
  "sanitize_filename filename max_length =
     (let safe = sub_unsafe filename;
          safe = squeeze (CHR ''.'') safe;
          safe = squeeze (CHR '' '') safe;
          safe = strip_chars '' .'' safe;
          safe = (if int (length safe) > max_length
                  then rstrip_chars ''.'' (rsplit_first (CHR '' '') (slice_to max_length safe))
                  else safe)
      in if safe \<noteq> [] then safe else ''transcript'')"

text \<open>
  \<open>FileUtils.generate_output_path\<close>: the call of \<open>mkdir\<close> may raise and changes the file
  system, so the function takes the state and returns the path with the new state.
\<close>

definition generate_output_path ::
  "fs \<Rightarrow> string \<Rightarrow> string \<Rightarrow> string \<Rightarrow> path \<Rightarrow> error + path \<times> fs" where
  "generate_output_path fs base_name language' format output_dir =
     (case mkdir_parents fs output_dir of
        Inl e \<Rightarrow> Inl e
      | Inr fs' \<Rightarrow>
          (let filename = base_name @ ''.'' @ language' @ ''.'' @ format
           in Inr (joinpath output_dir filename, fs')))"

text \<open>
  Where a path leads once each \<open>..\<close> has cancelled the component before it (at the root, or
  with nothing before it, a \<open>..\<close> of a relative path stays), and whether a path lies under a
  directory.
\<close>

fun resolve_acc :: "bool \<Rightarrow> string list \<Rightarrow> string list \<Rightarrow> string list" where
  "resolve_acc absolute acc [] = rev acc"
| "resolve_acc absolute acc (p # ps) =
     (if p = ''..'' then
        (case acc of
           [] \<Rightarrow> resolve_acc absolute (if absolute then [] else [p]) ps
         | a # as \<Rightarrow> resolve_acc absolute (if a = ''..'' then p # acc else as) ps)
      else resolve_acc absolute (p # acc) ps)"

definition resolve :: "path \<Rightarrow> path" where
  "resolve p = Path (root p) (resolve_acc (root p \<noteq> []) [] (parts p))"

definition is_under :: "path \<Rightarrow> path \<Rightarrow> bool" where
  "is_under d p \<longleftrightarrow>
     root (resolve p) = root (resolve d)
     \<and> take (length (parts (resolve d))) (parts (resolve p)) = parts (resolve d)"

section \<open>Auxiliary notions for the proofs\<close>

text \<open>A token: not empty and free of whitespace.\<close>

definition is_word :: "string \<Rightarrow> bool" where
  "is_word w \<longleftrightarrow> w \<noteq> [] \<and> (\<forall>c\<in>set w. \<not> isspace c)"

text \<open>A line within the width, or one of the tokens \<open>ws\<close>, longer than the width.\<close>

definition ok_line :: "int \<Rightarrow> string list \<Rightarrow> string \<Rightarrow> bool" where
  "ok_line max_width ws l \<longleftrightarrow>
     int (length l) \<le> max_width \<or> (l \<in> set ws \<and> max_width < int (length l))"

text \<open>The invariant of the loop of the wrapper, \<open>ws\<close> being the words read so far.\<close>

definition wrap_inv :: "int \<Rightarrow> string list \<Rightarrow> string list \<times> string list \<Rightarrow> bool" where
  "wrap_inv max_width ws st \<longleftrightarrow>
     concat (map str_split (fst st)) @ snd st = ws
     \<and> (\<forall>l\<in>set (fst st). ok_line max_width ws l \<and> CHR 0x0A \<notin> set l)
     \<and> (snd st = [] \<or> int (length (join '' '' (snd st))) \<le> max_width \<or> length (snd st) = 1)"

text \<open>The file system with nothing in it but the root and the current directory.\<close>

definition empty_fs :: fs where
  "empty_fs = []"



text \<open>The number that the four fields of a timestamp stand for, in seconds.\<close>

definition reconstruct :: "pyfloat \<Rightarrow> rat" where
  "reconstruct seconds =
     of_int (hours seconds) * 3600 + of_int (minutes seconds) * 60 + of_int (secs seconds)
     + of_int (millis seconds) / 1000"


section \<open>Properties\<close>

subsection \<open>The cue wrapper\<close>

lemma split_acc_words:
  "\<forall>c\<in>set cur. \<not> isspace c \<Longrightarrow> \<forall>w\<in>set (split_acc cur s). is_word w"
proof (induction s arbitrary: cur)
  case Nil
  then show ?case by (simp add: is_word_def)
next
  case (Cons a s)
  have e: "\<forall>w\<in>set (split_acc [] s). is_word w" using Cons.IH [of "[]"] by simp
  show ?case
  proof (cases "isspace a")
    case True
    then show ?thesis using e Cons.prems by (simp add: is_word_def)
  next
    case False
    then show ?thesis using Cons.IH [of "cur @ [a]"] Cons.prems by simp
  qed
qed

lemma str_split_words: "w \<in> set (str_split s) \<Longrightarrow> is_word w"
  using split_acc_words [of "[]" s] by (simp add: str_split_def)

lemma split_acc_nospace:
  "\<forall>c\<in>set w. \<not> isspace c \<Longrightarrow> split_acc cur (w @ s) = split_acc (cur @ w) s"
  by (induction w arbitrary: cur) auto

lemma str_split_word: "is_word w \<Longrightarrow> str_split w = [w]"
  using split_acc_nospace [of w "[]" "[]"] by (simp add: str_split_def is_word_def)

lemma split_acc_sep:
  "isspace c \<Longrightarrow> split_acc cur (a @ c # b) = split_acc cur a @ split_acc [] b"
  by (induction a arbitrary: cur) auto

lemma str_split_join:
  "isspace c \<Longrightarrow> str_split (join [c] ls) = concat (map str_split ls)"
proof (induction ls)
  case Nil
  then show ?case by (simp add: str_split_def)
next
  case (Cons x ys)
  show ?case
  proof (cases ys)
    case Nil
    then show ?thesis by (simp add: str_split_def)
  next
    case (Cons y zs)
    then show ?thesis
      using split_acc_sep [of c "[]" x "join [c] (y # zs)"] Cons.IH Cons.prems
      by (simp add: str_split_def)
  qed
qed

lemma str_split_join_words:
  "isspace c \<Longrightarrow> \<forall>w\<in>set ws. is_word w \<Longrightarrow> str_split (join [c] ws) = ws"
  by (simp add: str_split_join) (induction ws, simp_all add: str_split_word)

lemma set_join: "set (join sep xs) \<subseteq> set sep \<union> \<Union> (set ` set xs)"
  by (induction sep xs rule: join.induct) auto

lemma split_sep_nosep:
  "c \<notin> set l \<Longrightarrow> split_sep c (l @ c # r) = l # split_sep c r"
  by (induction l) auto

lemma split_sep_nosep_end: "c \<notin> set l \<Longrightarrow> split_sep c l = [l]"
  by (induction l) auto

lemma split_sep_join:
  "ls \<noteq> [] \<Longrightarrow> \<forall>l\<in>set ls. c \<notin> set l \<Longrightarrow> split_sep c (join [c] ls) = ls"
proof (induction ls)
  case Nil
  then show ?case by simp
next
  case (Cons x ys)
  show ?case
  proof (cases ys)
    case Nil
    then show ?thesis using Cons.prems by (simp add: split_sep_nosep_end)
  next
    case (Cons y zs)
    then show ?thesis
      using split_sep_nosep [of c x "join [c] (y # zs)"] Cons.IH Cons.prems by simp
  qed
qed

lemma isspace_space: "isspace (CHR '' '')"
  by (simp add: isspace_def)

lemma isspace_newline: "isspace (CHR 0x0A)"
  by (simp add: isspace_def)

lemma join_words_nonl:
  assumes "\<forall>w\<in>set ws. is_word w"
  shows "CHR 0x0A \<notin> set (join '' '' ws)"
proof
  assume "CHR 0x0A \<in> set (join '' '' ws)"
  then have "CHR 0x0A \<in> set '' '' \<union> \<Union> (set ` set ws)"
    using set_join [of "'' ''" ws] by blast
  then obtain w where "w \<in> set ws" "CHR 0x0A \<in> set w" by auto
  then show False using assms isspace_newline by (auto simp: is_word_def)
qed

lemma ok_line_mono: "ok_line m ws l \<Longrightarrow> set ws \<subseteq> set ws' \<Longrightarrow> ok_line m ws' l"
  by (auto simp: ok_line_def)

lemma wrap_step_inv:
  assumes inv: "wrap_inv m ws st" and ws: "\<forall>w\<in>set (ws @ [x]). is_word w"
  shows "wrap_inv m (ws @ [x]) (wrap_step m st x)"
proof -
  obtain lines cur where st: "st = (lines, cur)" by (cases st)
  have c: "concat (map str_split lines) @ cur = ws"
    and l: "\<forall>l\<in>set lines. ok_line m ws l \<and> CHR 0x0A \<notin> set l"
    and k: "cur = [] \<or> int (length (join '' '' cur)) \<le> m \<or> length cur = 1"
    using inv by (simp_all add: wrap_inv_def st)
  have l': "\<forall>l\<in>set lines. ok_line m (ws @ [x]) l \<and> CHR 0x0A \<notin> set l"
    using l ok_line_mono [of m ws _ "ws @ [x]"] by auto
  have curw: "\<forall>w\<in>set cur. is_word w" using c ws by auto
  have xw: "is_word x" using ws by simp
  show ?thesis
  proof (cases "int (length (join '' '' (cur @ [x]))) > m")
    case False
    then show ?thesis using c l' by (simp add: wrap_step_def st wrap_inv_def Let_def)
  next
    case True
    show ?thesis
    proof (cases "cur = []")
      case True
      have "ok_line m (ws @ [x]) x" using \<open>int (length (join '' '' (cur @ [x]))) > m\<close> True
        by (simp add: ok_line_def)
      moreover have "CHR 0x0A \<notin> set x" using xw isspace_newline by (auto simp: is_word_def)
      ultimately show ?thesis using c l' True \<open>int (length (join '' '' (cur @ [x]))) > m\<close> xw
        by (simp add: wrap_step_def st wrap_inv_def Let_def str_split_word)
    next
      case False
      have s: "str_split (join '' '' cur) = cur"
        using str_split_join_words [OF isspace_space curw] by simp
      have nl: "CHR 0x0A \<notin> set (join '' '' cur)" using join_words_nonl [OF curw] .
      have ok: "ok_line m (ws @ [x]) (join '' '' cur)"
      proof (cases "int (length (join '' '' cur)) \<le> m")
        case True
        then show ?thesis by (simp add: ok_line_def)
      next
        case False
        then have "length cur = 1" using k \<open>cur \<noteq> []\<close> by simp
        then obtain w where w: "cur = [w]" by (cases cur) auto
        then have "w \<in> set ws" using c by auto
        then show ?thesis using False w by (simp add: ok_line_def)
      qed
      show ?thesis using c l' False True s nl ok
        by (simp add: wrap_step_def st wrap_inv_def Let_def)
    qed
  qed
qed

lemma wrap_foldl_inv:
  "\<forall>w\<in>set ws. is_word w \<Longrightarrow> wrap_inv m ws (foldl (wrap_step m) ([], []) ws)"
proof (induction ws rule: rev_induct)
  case Nil
  then show ?case by (simp add: wrap_inv_def)
next
  case (snoc x xs)
  then have "wrap_inv m xs (foldl (wrap_step m) ([], []) xs)" by simp
  then show ?case using wrap_step_inv [of m xs _ x] snoc.prems by simp
qed

lemma wrap_lines_props:
  "concat (map str_split (wrap_lines input m)) = str_split input
   \<and> (\<forall>l\<in>set (wrap_lines input m). ok_line m (str_split input) l \<and> CHR 0x0A \<notin> set l)"
proof -
  define st where "st = foldl (wrap_step m) ([], []) (str_split input)"
  have w: "\<forall>w\<in>set (str_split input). is_word w" using str_split_words by blast
  have inv: "wrap_inv m (str_split input) st"
    unfolding st_def using wrap_foldl_inv [OF w] .
  obtain lines cur where s: "st = (lines, cur)" by (cases st)
  have c: "concat (map str_split lines) @ cur = str_split input"
    and l: "\<forall>l\<in>set lines. ok_line m (str_split input) l \<and> CHR 0x0A \<notin> set l"
    and k: "cur = [] \<or> int (length (join '' '' cur)) \<le> m \<or> length cur = 1"
    using inv by (simp_all add: wrap_inv_def s)
  have curw: "\<forall>w\<in>set cur. is_word w" using c w by (metis Un_iff set_append)
  have wl: "wrap_lines input m = (if cur \<noteq> [] then lines @ [join '' '' cur] else lines)"
    using s by (simp add: wrap_lines_def st_def [symmetric] Let_def)
  show ?thesis
  proof (cases "cur = []")
    case True
    then show ?thesis using wl c l by simp
  next
    case False
    have sj: "str_split (join '' '' cur) = cur"
      using str_split_join_words [OF isspace_space curw] by simp
    have nl: "CHR 0x0A \<notin> set (join '' '' cur)" using join_words_nonl [OF curw] .
    have ok: "ok_line m (str_split input) (join '' '' cur)"
    proof (cases "int (length (join '' '' cur)) \<le> m")
      case True
      then show ?thesis by (simp add: ok_line_def)
    next
      case F: False
      then have "length cur = 1" using k False by simp
      then obtain v where v: "cur = [v]" by (cases cur) auto
      then have "v \<in> set (str_split input)" using c by (metis in_set_conv_decomp)
      then show ?thesis using F v by (simp add: ok_line_def)
    qed
    show ?thesis using wl c l False sj nl ok by simp
  qed
qed

text \<open>
  Claim C2.  For every text and every width above zero, each line of what \<open>_wrap_text\<close>
  returns is at most as long as the width, unless the line is one single token of the text
  that is itself longer than the width; and splitting the result on whitespace gives the
  tokens of the text, all of them, once each, in their order.
\<close>

theorem wrap_text_width_and_tokens:
  assumes "0 < max_width"
  shows "(\<forall>l\<in>set (split_sep (CHR 0x0A) (wrap_text input max_width)).
            int (length l) \<le> max_width
            \<or> (l \<in> set (str_split input) \<and> max_width < int (length l)))
         \<and> str_split (wrap_text input max_width) = str_split input"
proof -
  let ?ls = "wrap_lines input max_width"
  have p: "concat (map str_split ?ls) = str_split input"
    and q: "\<forall>l\<in>set ?ls. ok_line max_width (str_split input) l \<and> CHR 0x0A \<notin> set l"
    using wrap_lines_props [of input max_width] by simp_all
  have tok: "str_split (wrap_text input max_width) = str_split input"
    using str_split_join [OF isspace_newline, of ?ls] p by (simp add: wrap_text_def newline_def)
  have len: "\<forall>l\<in>set (split_sep (CHR 0x0A) (wrap_text input max_width)).
      ok_line max_width (str_split input) l"
  proof (cases "?ls = []")
    case True
    then show ?thesis using assms by (simp add: wrap_text_def ok_line_def)
  next
    case False
    then have "split_sep (CHR 0x0A) (wrap_text input max_width) = ?ls"
      using split_sep_join [of ?ls "CHR 0x0A"] q by (simp add: wrap_text_def newline_def)
    then show ?thesis using q by simp
  qed
  show ?thesis using len tok by (simp add: ok_line_def)
qed

theorem wrap_text_width_and_tokens_witness:
  "(0::int) < 5
   \<and> split_sep (CHR 0x0A) (wrap_text ''abcdefghijkl ab  cd'' 5) = [''abcdefghijkl'', ''ab cd'']
   \<and> str_split (wrap_text ''abcdefghijkl ab  cd'' 5) = str_split ''abcdefghijkl ab  cd''"
proof -
  have h: "(0::int) < 5" by simp
  have t: "str_split (wrap_text ''abcdefghijkl ab  cd'' 5) = str_split ''abcdefghijkl ab  cd''"
    using wrap_text_width_and_tokens [OF h, of "''abcdefghijkl ab  cd''"] by simp
  have l: "split_sep (CHR 0x0A) (wrap_text ''abcdefghijkl ab  cd'' 5)
             = [''abcdefghijkl'', ''ab cd'']"
    by code_simp
  show ?thesis using h t l by simp
qed

subsection \<open>The renderers on given transcripts\<close>

text \<open>
  Claim C1.  The transcript with the text \<open>Hello world.\<close>, the language \<open>en\<close>, the duration
  2.0 and the one segment from 0.0 to 1.0 with the text \<open>Hello world.\<close>, no speaker and the
  confidence 0.95, rendered by \<open>SRTFormatter.format\<close>, gives the cue number 1, the timing line
  and the text, on three lines, with nothing after the text.
\<close>

theorem srt_hello_world:
  "SRTFormatter_format
     \<lparr>text = ''Hello world.'', language = ''en'',
      segments = [\<lparr>start_time = PyFloat 0 0, end_time = PyFloat 1 0,
                   Segment.text = ''Hello world.'', speaker = None,
                   confidence = Some (PyFloat 8556839292003942 (- 53))\<rparr>],
      duration = PyFloat 2 0, raw_response = None\<rparr>
   = ''1\<newline>00:00:00,000 --> 00:00:01,000\<newline>Hello world.''"
  by code_simp

subsection \<open>Transcripts without segments\<close>

lemma strip_webvtt: "strip (''WEBVTT'' @ newline @ []) = ''WEBVTT''"
  by (simp add: strip_def lstrip_def rstrip_def newline_def isspace_def)

text \<open>
  Claim C7.  For a transcript without segments the Report, Cue-A and Cue-B renderers return,
  and what they return has no cue: \<open>VTTFormatter.format\<close> gives the header token \<open>WEBVTT\<close>
  alone, \<open>SRTFormatter.format\<close> gives the empty text (no cue number, no timing line), and
  \<open>MarkdownFormatter.format\<close> gives its header: the title, the line with the language, the
  duration and the time of the call, and the rule.  The three functions are total.
\<close>

theorem empty_segments_header_only:
  "segments result = [] \<Longrightarrow>
     VTTFormatter_format result = ''WEBVTT''
     \<and> SRTFormatter_format result = []
     \<and> MarkdownFormatter_format now result
         = ''# Transcript\<newline>\<newline>**Language:** '' @ language result @ '' | **Duration:** ''
           @ format_1f (duration result) @ ''s | **Transcribed:** '' @ now
           @ ''\<newline>\<newline>---\<newline>''"
proof -
  assume e: "segments result = []"
  have v: "VTTFormatter_format result = ''WEBVTT''"
    using e strip_webvtt by (simp add: VTTFormatter_format_def)
  have s: "SRTFormatter_format result = []"
    using e by (simp add: SRTFormatter_format_def strip_def lstrip_def rstrip_def)
  have m: "MarkdownFormatter_format now result
         = ''# Transcript\<newline>\<newline>**Language:** '' @ language result @ '' | **Duration:** ''
           @ format_1f (duration result) @ ''s | **Transcribed:** '' @ now
           @ ''\<newline>\<newline>---\<newline>''"
    using e by (simp add: MarkdownFormatter_format_def md_header_lines_def newline_def)
  show ?thesis using v s m by simp
qed

theorem empty_segments_header_only_witness:
  "segments \<lparr>text = ''Hi'', language = ''en'', segments = [], duration = PyFloat 3 (- 1),
             raw_response = None\<rparr> = []
   \<and> VTTFormatter_format \<lparr>text = ''Hi'', language = ''en'', segments = [],
        duration = PyFloat 3 (- 1), raw_response = None\<rparr> = ''WEBVTT''
   \<and> SRTFormatter_format \<lparr>text = ''Hi'', language = ''en'', segments = [],
        duration = PyFloat 3 (- 1), raw_response = None\<rparr> = []
   \<and> MarkdownFormatter_format ''2024-05-01T10:00:00''
        \<lparr>text = ''Hi'', language = ''en'', segments = [], duration = PyFloat 3 (- 1),
         raw_response = None\<rparr>
       = ''# Transcript\<newline>\<newline>**Language:** en | **Duration:** 1.5s | **Transcribed:** 2024-05-01T10:00:00\<newline>\<newline>---\<newline>''"
proof -
  let ?r = "\<lparr>text = ''Hi'', language = ''en'', segments = [], duration = PyFloat 3 (- 1),
             raw_response = None\<rparr>"
  have h: "segments ?r = []" by simp
  have f: "format_1f (PyFloat 3 (- 1)) = ''1.5''" by code_simp
  show ?thesis
    using h f empty_segments_header_only [OF h, of "''2024-05-01T10:00:00''"] by simp
qed

subsection \<open>The registry\<close>




subsection \<open>The structured dump\<close>

text \<open>
  Claim C8 as it is stated fails: a transcript whose \<open>raw_response\<close> is present and is the empty
  dictionary gets no key for it, as the guard \<open>if result.raw_response:\<close> is false for it.
\<close>

theorem raw_response_empty_counterexample:
  "raw_response \<lparr>text = ''Hi'', language = ''en'', segments = [], duration = PyFloat 1 0,
                  raw_response = Some []\<rparr> = Some []
   \<and> map fst (JSONFormatter_data ''2024-05-01T10:00:00''
        \<lparr>text = ''Hi'', language = ''en'', segments = [], duration = PyFloat 1 0,
         raw_response = Some []\<rparr>)
       = [''metadata'', ''transcript'', ''segments'']"
  by (simp add: JSONFormatter_data_def)

text \<open>
  Claim C8, amended.  When \<open>raw_response\<close> is present and not empty, \<open>JSONFormatter.format\<close>
  puts it under the key \<open>raw_api_response\<close>, the fourth and last key at the top of the document
  and different from the three others; when \<open>raw_response\<close> is absent or empty, the document has
  the three other keys only.  The document is what \<open>json.dumps\<close> is given.
\<close>

theorem raw_response_key:
  "(raw_response result = Some raw \<and> raw \<noteq> [] \<longrightarrow>
      map fst (JSONFormatter_data now result)
        = [''metadata'', ''transcript'', ''segments'', ''raw_api_response'']
      \<and> map_of (JSONFormatter_data now result) ''raw_api_response'' = Some (JDict raw))
   \<and> (raw_response result = None \<or> raw_response result = Some [] \<longrightarrow>
      map fst (JSONFormatter_data now result) = [''metadata'', ''transcript'', ''segments''])
   \<and> JSONFormatter_format dumps now result = dumps (JDict (JSONFormatter_data now result))"
  by (auto simp: JSONFormatter_data_def JSONFormatter_format_def)

theorem raw_response_key_witness:
  "raw_response \<lparr>text = ''Hi'', language = ''en'', segments = [], duration = PyFloat 1 0,
                  raw_response = Some [(''id'', JInt 7)]\<rparr> = Some [(''id'', JInt 7)]
   \<and> [(''id'', JInt 7)] \<noteq> []
   \<and> map fst (JSONFormatter_data ''2024-05-01T10:00:00''
        \<lparr>text = ''Hi'', language = ''en'', segments = [], duration = PyFloat 1 0,
         raw_response = Some [(''id'', JInt 7)]\<rparr>)
       = [''metadata'', ''transcript'', ''segments'', ''raw_api_response'']
   \<and> map_of (JSONFormatter_data ''2024-05-01T10:00:00''
        \<lparr>text = ''Hi'', language = ''en'', segments = [], duration = PyFloat 1 0,
         raw_response = Some [(''id'', JInt 7)]\<rparr>) ''raw_api_response''
       = Some (JDict [(''id'', JInt 7)])
   \<and> raw_response \<lparr>text = ''Hi'', language = ''en'', segments = [], duration = PyFloat 1 0,
                  raw_response = None\<rparr> = None
   \<and> map fst (JSONFormatter_data ''2024-05-01T10:00:00''
        \<lparr>text = ''Hi'', language = ''en'', segments = [], duration = PyFloat 1 0,
         raw_response = None\<rparr>)
       = [''metadata'', ''transcript'', ''segments'']"
proof -
  let ?r = "\<lparr>text = ''Hi'', language = ''en'', segments = [], duration = PyFloat 1 0,
                  raw_response = Some [(''id'', JInt 7)]\<rparr>"
  let ?n = "\<lparr>text = ''Hi'', language = ''en'', segments = [], duration = PyFloat 1 0,
                  raw_response = None\<rparr>"
  have h: "raw_response ?r = Some [(''id'', JInt 7)] \<and> [(''id'', JInt 7)] \<noteq> []" by simp
  have k: "raw_response ?n = None" by simp
  show ?thesis
    using h k raw_response_key [of ?r "[(''id'', JInt 7)]" "''2024-05-01T10:00:00''"]
      raw_response_key [of ?n "[]" "''2024-05-01T10:00:00''"]
    by simp
qed

subsection \<open>The clock\<close>





subsection \<open>The output path\<close>

lemma is_dir_mkdir_parents: "is_dir fs d \<Longrightarrow> mkdir_parents fs d = Inr fs"
  by (subst mkdir_parents.simps) (simp add: os_mkdir_def is_dir_def)

lemma os_mkdir_is_dir: "os_mkdir fs d = Inr fs' \<Longrightarrow> is_dir fs' d"
  by (auto simp: os_mkdir_def is_dir_def lookup_def split: if_splits option.splits node.splits)

lemma mkdir_exist_ok_is_dir: "mkdir_exist_ok fs d = Inr fs' \<Longrightarrow> is_dir fs' d"
  by (auto simp: mkdir_exist_ok_def dest: os_mkdir_is_dir
      split: sum.splits error.splits if_splits)

lemma mkdir_parents_is_dir: "mkdir_parents fs d = Inr fs' \<Longrightarrow> is_dir fs' d"
  by (subst (asm) mkdir_parents.simps)
    (auto dest: os_mkdir_is_dir mkdir_exist_ok_is_dir split: sum.splits error.splits if_splits)

lemma parse_path_relative: "take 1 s \<noteq> ''/'' \<Longrightarrow> root (parse_path s) = []"
  by (cases s) (auto simp: parse_path_def path_root_def)

lemma parse_path_absolute: "take 1 s = ''/'' \<Longrightarrow> root (parse_path s) \<noteq> []"
  by (cases s) (auto simp: parse_path_def path_root_def)

lemma join_snoc: "xs \<noteq> [] \<Longrightarrow> join sep (xs @ [x]) = join sep xs @ sep @ x"
proof (induction xs)
  case Nil
  then show ?case by simp
next
  case (Cons a xs)
  then show ?case by (cases xs) simp_all
qed

text \<open>
  Claim C9 as it is stated fails for a base name that starts with a slash: the file name is
  then an absolute path, and \<open>output_dir / filename\<close> is that path without the directory.
\<close>

theorem generate_output_path_counterexample:
  "generate_output_path empty_fs ''/x'' ''en'' ''srt'' (Path [] [''out''])
     = Inr (Path ''/'' [''x.en.srt''], [(Path [] [''out''], Dir)])
   \<and> path_str (Path ''/'' [''x.en.srt'']) = ''/x.en.srt''
   \<and> path_str (Path [] [''out'']) @ ''/'' @ ''/x'' @ ''.'' @ ''en'' @ ''.'' @ ''srt''
       = ''out//x.en.srt''
   \<and> path_str (parse_path ''out//x.en.srt'') = ''out/x.en.srt''"
  by code_simp

text \<open>
  Claim C9, amended.  When \<open>generate_output_path\<close> returns, a second call with the same
  arguments in the state it left returns the same path, does not raise and leaves the state
  as it is, the directory being there.  For a base name that does not start with a slash,
  the path is the directory followed by the components of
  \<open>{base_name}.{language}.{format}\<close>, and its text is
  \<open>{directory}/{base_name}.{language}.{format}\<close> when the three parts of the name have no
  slash and the directory has a component; for a base name that starts with a slash, the path
  is the absolute path \<open>{base_name}.{language}.{format}\<close>.
\<close>

theorem generate_output_path_spec:
  "generate_output_path fs base_name lang fmt output_dir = Inr (p, fs') \<Longrightarrow>
     generate_output_path fs' base_name lang fmt output_dir = Inr (p, fs')
     \<and> is_dir fs' output_dir
     \<and> (take 1 base_name \<noteq> ''/'' \<longrightarrow>
          p = Path (root output_dir)
                (parts output_dir @ parts (parse_path (base_name @ ''.'' @ lang @ ''.'' @ fmt))))
     \<and> (take 1 base_name = ''/'' \<longrightarrow> p = parse_path (base_name @ ''.'' @ lang @ ''.'' @ fmt))
     \<and> (CHR ''/'' \<notin> set (base_name @ lang @ fmt) \<and> parts output_dir \<noteq> [] \<longrightarrow>
          path_str p = path_str output_dir @ ''/'' @ base_name @ ''.'' @ lang @ ''.'' @ fmt)"
proof -
  let ?f = "base_name @ ''.'' @ lang @ ''.'' @ fmt"
  assume a: "generate_output_path fs base_name lang fmt output_dir = Inr (p, fs')"
  then have m: "mkdir_parents fs output_dir = Inr fs'" and p: "p = joinpath output_dir ?f"
    by (auto simp: generate_output_path_def split: sum.splits)
  have d: "is_dir fs' output_dir" using mkdir_parents_is_dir [OF m] .
  have 1: "generate_output_path fs' base_name lang fmt output_dir = Inr (p, fs')"
    using is_dir_mkdir_parents [OF d] p by (simp add: generate_output_path_def)
  have 2: "take 1 base_name \<noteq> ''/'' \<longrightarrow>
          p = Path (root output_dir) (parts output_dir @ parts (parse_path ?f))"
  proof
    assume "take 1 base_name \<noteq> ''/''"
    then have "take 1 ?f \<noteq> ''/''" by (cases base_name) auto
    then show "p = Path (root output_dir) (parts output_dir @ parts (parse_path ?f))"
      using parse_path_relative [of ?f] p by (simp add: joinpath_def)
  qed
  have 3: "take 1 base_name = ''/'' \<longrightarrow> p = parse_path ?f"
  proof
    assume "take 1 base_name = ''/''"
    then have "take 1 ?f = ''/''" by (cases base_name) auto
    then show "p = parse_path ?f"
      using parse_path_absolute [of ?f] p by (simp add: joinpath_def Let_def)
  qed
  have 4: "CHR ''/'' \<notin> set (base_name @ lang @ fmt) \<and> parts output_dir \<noteq> [] \<longrightarrow>
          path_str p = path_str output_dir @ ''/'' @ ?f"
  proof
    assume n: "CHR ''/'' \<notin> set (base_name @ lang @ fmt) \<and> parts output_dir \<noteq> []"
    then have ns: "CHR ''/'' \<notin> set ?f" by auto
    have sp: "split_sep (CHR ''/'') ?f = [?f]"
      using ns split_sep_nosep_end by blast
    have "length ?f \<ge> 2" by simp
    then have ne: "?f \<noteq> [] \<and> ?f \<noteq> ''.''" by auto
    have "take 1 ?f \<noteq> ''/''" using ns by (cases base_name) auto
    then have "root (parse_path ?f) = []" using parse_path_relative by blast
    moreover have "parts (parse_path ?f) = [?f]" using sp ne by (simp add: parse_path_def)
    ultimately have "p = Path (root output_dir) (parts output_dir @ [?f])"
      using p by (simp add: joinpath_def)
    then show "path_str p = path_str output_dir @ ''/'' @ ?f"
      using n join_snoc [of "parts output_dir" "''/''" ?f] by (simp add: path_str_def)
  qed
  show ?thesis using 1 2 3 4 d by blast
qed

theorem generate_output_path_spec_witness:
  "generate_output_path empty_fs ''clip'' ''en'' ''srt'' (Path [] [''out'', ''sub''])
     = Inr (Path [] [''out'', ''sub'', ''clip.en.srt''],
            [(Path [] [''out'', ''sub''], Dir), (Path [] [''out''], Dir)])
   \<and> generate_output_path
        ([(Path [] [''out'', ''sub''], Dir), (Path [] [''out''], Dir)])
        ''clip'' ''en'' ''srt'' (Path [] [''out'', ''sub''])
     = Inr (Path [] [''out'', ''sub'', ''clip.en.srt''],
            [(Path [] [''out'', ''sub''], Dir), (Path [] [''out''], Dir)])
   \<and> path_str (Path [] [''out'', ''sub'', ''clip.en.srt'']) = ''out/sub/clip.en.srt''"
proof -
  have h: "generate_output_path empty_fs ''clip'' ''en'' ''srt'' (Path [] [''out'', ''sub''])
     = Inr (Path [] [''out'', ''sub'', ''clip.en.srt''],
            [(Path [] [''out'', ''sub''], Dir), (Path [] [''out''], Dir)])"
    by code_simp
  have s: "path_str (Path [] [''out'', ''sub'', ''clip.en.srt'']) = ''out/sub/clip.en.srt''"
    by code_simp
  show ?thesis using h s generate_output_path_spec [OF h] by simp
qed

subsection \<open>File names are not sanitised on the way to the path\<close>

lemma set_squeeze: "set (squeeze c s) \<subseteq> set s"
  by (induction c s rule: squeeze.induct) auto

lemma set_rstrip_chars: "set (rstrip_chars cs s) \<subseteq> set s"
proof -
  have "set (dropWhile (\<lambda>c. c \<in> set cs) (rev s)) \<subseteq> set (rev s)"
    using set_dropWhileD by fastforce
  then show ?thesis by (simp add: rstrip_chars_def)
qed

lemma set_strip_chars: "set (strip_chars cs s) \<subseteq> set s"
proof -
  have "set (dropWhile (\<lambda>c. c \<in> set cs) s) \<subseteq> set s"
    using set_dropWhileD by fastforce
  then show ?thesis
    using set_rstrip_chars [of cs "dropWhile (\<lambda>c. c \<in> set cs) s"]
    by (auto simp: strip_chars_def)
qed

lemma set_slice_to: "set (slice_to n s) \<subseteq> set s"
  by (auto simp: slice_to_def dest: in_set_takeD)

lemma set_tl_subset: "set (tl xs) \<subseteq> set xs"
  by (cases xs) auto

lemma set_rsplit_first: "set (rsplit_first c s) \<subseteq> set s"
proof (cases "c \<in> set s")
  case False
  then show ?thesis by (simp add: rsplit_first_def)
next
  case True
  let ?d = "dropWhile (\<lambda>x. x \<noteq> c) (rev s)"
  have "set ?d \<subseteq> set (rev s)" using set_dropWhileD by fastforce
  moreover have "set (tl ?d) \<subseteq> set ?d" by (rule set_tl_subset)
  ultimately have "set (tl ?d) \<subseteq> set s" by auto
  then show ?thesis using True by (simp add: rsplit_first_def)
qed

lemma slash_not_safe: "\<not> is_word_char (CHR ''/'') \<and> CHR ''/'' \<notin> set ''-. ''"
  by (simp add: is_word_char_def)

lemma sub_unsafe_no_slash: "CHR ''/'' \<notin> set (sub_unsafe s)"
  using slash_not_safe by (auto simp: sub_unsafe_def)

lemma sanitize_filename_no_slash: "CHR ''/'' \<notin> set (sanitize_filename filename max_length)"
proof -
  define a where "a = squeeze (CHR '' '') (squeeze (CHR ''.'') (sub_unsafe filename))"
  define b where "b = strip_chars '' .'' a"
  define c where "c = rstrip_chars ''.'' (rsplit_first (CHR '' '') (slice_to max_length b))"
  have "set a \<subseteq> set (sub_unsafe filename)"
    unfolding a_def
    using set_squeeze [of "CHR '' ''" "squeeze (CHR ''.'') (sub_unsafe filename)"]
      set_squeeze [of "CHR ''.''" "sub_unsafe filename"] by blast
  then have na: "CHR ''/'' \<notin> set a" using sub_unsafe_no_slash by blast
  have "set b \<subseteq> set a" unfolding b_def by (rule set_strip_chars)
  then have nb: "CHR ''/'' \<notin> set b" using na by blast
  have "set c \<subseteq> set b"
    unfolding c_def
    using set_rstrip_chars [of "''.''" "rsplit_first (CHR '' '') (slice_to max_length b)"]
      set_rsplit_first [of "CHR '' ''" "slice_to max_length b"] set_slice_to [of max_length b]
    by blast
  then have nc: "CHR ''/'' \<notin> set c" using nb by blast
  have "sanitize_filename filename max_length =
      (let safe = (if int (length b) > max_length then c else b)
       in if safe \<noteq> [] then safe else ''transcript'')"
    by (simp add: sanitize_filename_def a_def b_def c_def Let_def)
  then show ?thesis using nb nc by (auto simp: Let_def)
qed

text \<open>
  Claim C10.  \<open>generate_output_path\<close> puts the base name, the language and the format into
  the file name as they are.  With the base name \<open>../x\<close> and the directory \<open>out\<close> the path is
  \<open>out/../x.en.srt\<close>, which leads to \<open>x.en.srt\<close>, outside \<open>out\<close>.  \<open>sanitize_filename\<close>,
  which \<open>generate_output_path\<close> does not call, would have turned \<open>../x\<close> into \<open>-x\<close>, and never
  returns a name with a slash.
\<close>

theorem generate_output_path_unsanitized:
  "(generate_output_path fs base_name lang fmt output_dir = Inr (p, fs') \<longrightarrow>
      p = joinpath output_dir (base_name @ ''.'' @ lang @ ''.'' @ fmt))
   \<and> generate_output_path empty_fs ''../x'' ''en'' ''srt'' (Path [] [''out''])
       = Inr (Path [] [''out'', ''..'', ''x.en.srt''], [(Path [] [''out''], Dir)])
   \<and> path_str (Path [] [''out'', ''..'', ''x.en.srt'']) = ''out/../x.en.srt''
   \<and> resolve (Path [] [''out'', ''..'', ''x.en.srt'']) = Path [] [''x.en.srt'']
   \<and> \<not> is_under (Path [] [''out'']) (Path [] [''out'', ''..'', ''x.en.srt''])
   \<and> sanitize_filename ''../x'' 200 = ''-x''
   \<and> CHR ''/'' \<notin> set (sanitize_filename filename max_length)"
proof -
  have 1: "generate_output_path fs base_name lang fmt output_dir = Inr (p, fs') \<longrightarrow>
      p = joinpath output_dir (base_name @ ''.'' @ lang @ ''.'' @ fmt)"
    by (auto simp: generate_output_path_def split: sum.splits)
  have 2: "generate_output_path empty_fs ''../x'' ''en'' ''srt'' (Path [] [''out''])
       = Inr (Path [] [''out'', ''..'', ''x.en.srt''], [(Path [] [''out''], Dir)])"
    by code_simp
  have 3: "path_str (Path [] [''out'', ''..'', ''x.en.srt'']) = ''out/../x.en.srt''"
    by code_simp
  have 4: "resolve (Path [] [''out'', ''..'', ''x.en.srt'']) = Path [] [''x.en.srt'']"
    by code_simp
  have 5: "\<not> is_under (Path [] [''out'']) (Path [] [''out'', ''..'', ''x.en.srt''])"
    by code_simp
  have 6: "sanitize_filename ''../x'' 200 = ''-x''"
    by code_simp
  show ?thesis using 1 2 3 4 5 6 sanitize_filename_no_slash by blast
qed

theorem generate_output_path_unsanitized_witness:
  "generate_output_path empty_fs ''a/../../b'' ''en'' ''txt'' (Path [] [''out''])
     = Inr (Path [] [''out'', ''a'', ''..'', ''..'', ''b.en.txt''], [(Path [] [''out''], Dir)])
   \<and> Path [] [''out'', ''a'', ''..'', ''..'', ''b.en.txt'']
       = joinpath (Path [] [''out'']) (''a/../../b'' @ ''.'' @ ''en'' @ ''.'' @ ''txt'')"
proof -
  have h: "generate_output_path empty_fs ''a/../../b'' ''en'' ''txt'' (Path [] [''out''])
     = Inr (Path [] [''out'', ''a'', ''..'', ''..'', ''b.en.txt''], [(Path [] [''out''], Dir)])"
    by code_simp
  show ?thesis
    using h generate_output_path_unsanitized [of empty_fs "''a/../../b''" "''en''" "''txt''"
        "Path [] [''out'']" "Path [] [''out'', ''a'', ''..'', ''..'', ''b.en.txt'']"
        "[(Path [] [''out''], Dir)]"]
    by blast
qed

subsection \<open>Powers of two\<close>

lemma p2_pos: "0 < (2::rat) powi e"
  by (simp add: zero_less_power_int)

lemma p2_add: "(2::rat) powi (a + b) = 2 powi a * 2 powi b"
  by (simp add: power_int_add)

lemma p2_diff: "(2::rat) powi (a - b) = 2 powi a / 2 powi b"
  by (simp add: power_int_diff)

lemma p2_mono: "a \<le> b \<Longrightarrow> (2::rat) powi a \<le> 2 powi b"
  by (simp add: power_int_increasing)

lemma p2_less_imp: "(2::rat) powi a < 2 powi b \<Longrightarrow> a < b"
proof (rule ccontr)
  assume l: "(2::rat) powi a < 2 powi b" and "\<not> a < b"
  then have "(2::rat) powi b \<le> 2 powi a" using p2_mono [of b a] by simp
  then show False using l by simp
qed

lemma p2_nat: "0 \<le> e \<Longrightarrow> (2::rat) powi e = of_int (2 ^ nat e)"
  by (simp add: power_int_def)

subsection \<open>The binary logarithm\<close>

lemma ilog2_bounds:
  assumes "0 < q"
  shows "2 powi (ilog2 q) \<le> q \<and> q < 2 powi (ilog2 q + 1)"
proof -
  obtain a b where ab: "quotient_of q = (a, b)" by (cases "quotient_of q")
  have b: "0 < b" using quotient_of_denom_pos [OF ab] .
  have q: "q = of_int a / of_int b" using quotient_of_div [OF ab] .
  have a: "0 < a" using assms b q by (simp add: zero_less_divide_iff)
  let ?la = "bitlen a" and ?lb = "bitlen b"
  have la: "1 \<le> ?la" and lb: "1 \<le> ?lb"
    using a b bitlen_eq_zero_iff [of a] bitlen_eq_zero_iff [of b] bitlen_nonneg [of a]
      bitlen_nonneg [of b] by linarith+
  have ba: "2 ^ nat (?la - 1) \<le> a \<and> a < 2 ^ nat ?la" using bitlen_bounds [OF a] .
  have bb: "2 ^ nat (?lb - 1) \<le> b \<and> b < 2 ^ nat ?lb" using bitlen_bounds [OF b] .
  have a1: "(2::rat) powi (?la - 1) \<le> of_int a"
    using ba la p2_nat [of "?la - 1"] by (metis diff_ge_0_iff_ge of_int_le_iff)
  have a2: "of_int a < (2::rat) powi ?la"
    using ba la p2_nat [of "?la"] by (metis bitlen_nonneg of_int_less_iff)
  have b1: "(2::rat) powi (?lb - 1) \<le> of_int b"
    using bb lb p2_nat [of "?lb - 1"] by (metis diff_ge_0_iff_ge of_int_le_iff)
  have b2: "of_int b < (2::rat) powi ?lb"
    using bb lb p2_nat [of "?lb"] by (metis bitlen_nonneg of_int_less_iff)
  define k where "k = ?la - ?lb"
  have bp: "(0::rat) < of_int b" using b by simp
  have up: "q < 2 powi (k + 1)"
  proof -
    have "q < 2 powi ?la / of_int b" unfolding q using a2 bp by (simp add: divide_strict_right_mono)
    also have "\<dots> \<le> 2 powi ?la / 2 powi (?lb - 1)"
      using b1 p2_pos [of "?lb - 1"] p2_pos [of ?la] by (simp add: frac_le)
    also have "\<dots> = 2 powi (k + 1)" unfolding k_def using p2_diff [of ?la "?lb - 1"]
      by (simp add: algebra_simps)
    finally show ?thesis .
  qed
  have lo: "2 powi (k - 1) < q"
  proof -
    have "(2::rat) powi (k - 1) = 2 powi (?la - 1) / 2 powi ?lb"
      unfolding k_def using p2_diff [of "?la - 1" ?lb] by (simp add: algebra_simps)
    also have "\<dots> \<le> of_int a / 2 powi ?lb"
      using a1 p2_pos [of ?lb] by (simp add: divide_right_mono)
    also have "\<dots> < of_int a / of_int b"
      using b2 bp a by (simp add: divide_strict_left_mono)
    finally show ?thesis unfolding q .
  qed
  have il: "ilog2 q = (if 2 powi k \<le> q then k else k - 1)"
    by (simp add: ilog2_def ab k_def)
  show ?thesis
  proof (cases "2 powi k \<le> q")
    case True
    then show ?thesis using il up by simp
  next
    case False
    then show ?thesis using il lo by simp
  qed
qed

lemma ilog2_less: "0 < q \<Longrightarrow> q < 2 powi n \<Longrightarrow> ilog2 q < n"
  using ilog2_bounds [of q] p2_less_imp [of "ilog2 q" n] by linarith

subsection \<open>Rounding to a whole number\<close>

lemma rhe_cases: "round_half_even x = \<lfloor>x\<rfloor> \<or> round_half_even x = \<lfloor>x\<rfloor> + 1"
  by (simp add: round_half_even_def Let_def)

lemma rhe_upper: "of_int (round_half_even x) \<le> x + 1 / 2"
  by (auto simp: round_half_even_def Let_def) linarith+

lemma rhe_lower: "x - 1 / 2 \<le> of_int (round_half_even x)"
  by (auto simp: round_half_even_def Let_def) linarith+

lemma rhe_of_int: "round_half_even (of_int n) = n"
  by (simp add: round_half_even_def)

lemma rhe_ge: "of_int n \<le> x \<Longrightarrow> n \<le> round_half_even x"
  using rhe_cases [of x] le_floor_iff [of n x] by linarith

lemma rhe_le: "x \<le> of_int n \<Longrightarrow> round_half_even x \<le> n"
proof -
  assume a: "x \<le> of_int n"
  have "of_int (round_half_even x) < (of_int n :: rat) + 1" using rhe_upper [of x] a by linarith
  then have "round_half_even x < n + 1" by (metis of_int_1 of_int_add of_int_less_iff)
  then show ?thesis by simp
qed


subsection \<open>Rounding to a double\<close>

lemma p2_neg: "e \<le> 0 \<Longrightarrow> (2::rat) powi e = 1 / of_int (2 ^ nat (- e))"
  by (cases "e = 0") (simp_all add: power_int_def field_simps)

lemma round_double_nonneg: "0 \<le> q \<Longrightarrow> 0 \<le> round_double q"
proof -
  assume q: "0 \<le> q"
  have "0 \<le> q / 2 powi (ulp_expo q)" using q p2_pos [of "ulp_expo q"] by simp
  then have "0 \<le> round_half_even (q / 2 powi (ulp_expo q))"
    using rhe_ge [of 0 "q / 2 powi (ulp_expo q)"] by simp
  then show ?thesis using p2_pos [of "ulp_expo q"] by (simp add: round_double_def)
qed

lemma round_double_repr:
  assumes q: "q = of_int n * 2 powi j" and n: "\<bar>n\<bar> < 2 ^ 53" and j: "- 1074 \<le> j"
  shows "round_double q = q"
proof (cases "q = 0")
  case True
  then show ?thesis by (simp add: round_double_def)
next
  case False
  define e where "e = ulp_expo q"
  have aq: "\<bar>q\<bar> = of_int \<bar>n\<bar> * 2 powi j"
    unfolding q using p2_pos [of j] by (simp add: abs_mult)
  have "of_int \<bar>n\<bar> < (2::rat) ^ 53" using n by (metis of_int_less_numeral_power_cancel_iff)
  then have "\<bar>q\<bar> < 2 ^ 53 * 2 powi j" unfolding aq using p2_pos [of j] by simp
  also have "\<dots> = 2 powi (53 + j)" using p2_add [of 53 j] by simp
  finally have "ilog2 \<bar>q\<bar> < 53 + j" using False ilog2_less [of "\<bar>q\<bar>" "53 + j"] by simp
  then have ej: "e \<le> j" using j by (simp add: e_def ulp_expo_def)
  have "q / 2 powi e = of_int n * 2 powi (j - e)" unfolding q using p2_diff [of j e] by simp
  also have "\<dots> = of_int (n * 2 ^ nat (j - e))" using ej p2_nat [of "j - e"] by simp
  finally have s: "q / 2 powi e = of_int (n * 2 ^ nat (j - e))" .
  have "round_double q = of_int (round_half_even (q / 2 powi e)) * 2 powi e"
    using False by (simp add: round_double_def e_def)
  also have "\<dots> = (q / 2 powi e) * 2 powi e" unfolding s rhe_of_int by (simp only: s [symmetric])
  also have "\<dots> = q" using p2_pos [of e] by simp
  finally show ?thesis .
qed

lemma round_double_of_int: "\<bar>n\<bar> < 2 ^ 53 \<Longrightarrow> round_double (of_int n) = of_int n"
  using round_double_repr [of "of_int n" n 0] by simp

lemma round_double_ge_int:
  assumes "0 < p" and "ulp_expo p \<le> 0" and "of_int n \<le> p"
  shows "of_int n \<le> round_double p"
proof -
  define e where "e = ulp_expo p"
  define N :: int where "N = 2 ^ nat (- e)"
  have N: "0 < N" by (simp add: N_def)
  have pe: "(2::rat) powi e = 1 / of_int N" using assms(2) p2_neg [of e] by (simp add: e_def N_def)
  have "of_int (n * N) \<le> p * of_int N" using assms(3) N by (simp add: mult_right_mono)
  then have "n * N \<le> round_half_even (p * of_int N)" by (rule rhe_ge)
  then have "(of_int (n * N) :: rat) \<le> of_int (round_half_even (p * of_int N))"
    by (simp only: of_int_le_iff)
  then have "(of_int n :: rat) \<le> of_int (round_half_even (p * of_int N)) / of_int N"
    using N by (simp add: pos_le_divide_eq)
  moreover have "round_double p = of_int (round_half_even (p * of_int N)) / of_int N"
    using assms(1) pe by (simp add: round_double_def e_def [symmetric])
  ultimately show ?thesis by simp
qed

lemma round_double_le_int:
  assumes "0 < p" and "ulp_expo p \<le> 0" and "p \<le> of_int n"
  shows "round_double p \<le> of_int n"
proof -
  define e where "e = ulp_expo p"
  define N :: int where "N = 2 ^ nat (- e)"
  have N: "0 < N" by (simp add: N_def)
  have pe: "(2::rat) powi e = 1 / of_int N" using assms(2) p2_neg [of e] by (simp add: e_def N_def)
  have "p * of_int N \<le> of_int (n * N)" using assms(3) N by (simp add: mult_right_mono)
  then have "round_half_even (p * of_int N) \<le> n * N" by (rule rhe_le)
  then have "(of_int (round_half_even (p * of_int N)) :: rat) \<le> of_int (n * N)"
    by (simp only: of_int_le_iff)
  then have "of_int (round_half_even (p * of_int N)) / of_int N \<le> (of_int n :: rat)"
    using N by (simp add: pos_divide_le_eq)
  moreover have "round_double p = of_int (round_half_even (p * of_int N)) / of_int N"
    using assms(1) pe by (simp add: round_double_def e_def [symmetric])
  ultimately show ?thesis by simp
qed

lemma ulp_expo_small: "0 < p \<Longrightarrow> p < 1024 \<Longrightarrow> ulp_expo p \<le> - 43"
proof -
  assume p: "0 < p" "p < 1024"
  have "(1024::rat) = 2 powi 10" by simp
  then have "ilog2 p < 10" using p ilog2_less [of p 10] by simp
  then show ?thesis using p by (simp add: ulp_expo_def)
qed



subsection \<open>Remainder and quotient of floats that are not negative\<close>

lemma c_fmod_pos:
  assumes "0 \<le> x" and "0 < y"
  shows "c_fmod x y = x - y * of_int \<lfloor>x / y\<rfloor> \<and> 0 \<le> c_fmod x y \<and> c_fmod x y < y"
proof -
  have d: "0 \<le> x / y" using assms by simp
  then have c: "c_fmod x y = x - y * of_int \<lfloor>x / y\<rfloor>" by (simp add: c_fmod_def py_int_def)
  have "y * of_int \<lfloor>x / y\<rfloor> \<le> y * (x / y)" using assms(2) by (intro mult_left_mono) simp_all
  then have l: "y * of_int \<lfloor>x / y\<rfloor> \<le> x" using assms(2) by simp
  have "x / y < of_int \<lfloor>x / y\<rfloor> + 1" by linarith
  then have "x < (of_int \<lfloor>x / y\<rfloor> + 1) * y" using assms(2) by (simp add: pos_divide_less_eq)
  then have u: "x - y * of_int \<lfloor>x / y\<rfloor> < y" by (simp add: algebra_simps)
  show ?thesis using c l u by simp
qed

lemma float_mod_pos: "0 \<le> x \<Longrightarrow> 0 < y \<Longrightarrow> float_mod x y = c_fmod x y"
  using c_fmod_pos [of x y] by (simp add: float_mod_def Let_def)

lemma float_floordiv_pos:
  assumes "0 \<le> x" and "0 < y"
  shows "float_floordiv x y =
     (let d = round_double (round_double (x - c_fmod x y) / y)
      in if d \<noteq> 0 then
           (if 1 / 2 < round_double (d - of_int \<lfloor>d\<rfloor>) then round_double (of_int \<lfloor>d\<rfloor> + 1)
            else of_int \<lfloor>d\<rfloor>)
         else 0)"
  using c_fmod_pos [OF assms] assms by (simp add: float_floordiv_def Let_def)


lemma float_floordiv_exact:
  assumes x: "0 \<le> x" and y: "0 < y"
    and r: "round_double (y * of_int \<lfloor>x / y\<rfloor>) = y * of_int \<lfloor>x / y\<rfloor>"
    and k: "\<lfloor>x / y\<rfloor> < 2 ^ 53"
  shows "float_floordiv x y = of_int \<lfloor>x / y\<rfloor>"
proof -
  define k where "k = \<lfloor>x / y\<rfloor>"
  have k0: "0 \<le> k" using x y by (simp add: k_def)
  have s: "x - c_fmod x y = y * of_int k" using c_fmod_pos [OF x y] by (simp add: k_def)
  have kk: "round_double (of_int k) = of_int k"
    using k k0 round_double_of_int [of k] by (simp add: k_def)
  have d: "round_double (round_double (x - c_fmod x y) / y) = of_int k"
    unfolding s using r y kk by (simp add: k_def)
  show ?thesis
    unfolding float_floordiv_pos [OF x y] d k_def [symmetric]
    by (simp add: Let_def round_double_def)
qed

subsection \<open>The four fields\<close>


lemma minutes_eq:
  assumes "0 \<le> valof s"
  shows "minutes s = \<lfloor>c_fmod (valof s) 3600 / 60\<rfloor> \<and> 0 \<le> minutes s \<and> minutes s \<le> 59"
proof -
  define m where "m = c_fmod (valof s) 3600"
  have m: "0 \<le> m \<and> m < 3600" using c_fmod_pos [of "valof s" 3600] assms by (simp add: m_def)
  define j where "j = \<lfloor>m / 60\<rfloor>"
  have j0: "0 \<le> j" using m by (simp add: j_def)
  have "m / 60 < 60" using m by simp
  then have j59: "j \<le> 59" unfolding j_def by (simp add: floor_less_iff)
  have "\<bar>60 * j\<bar> < 2 ^ 53" using j0 j59 by simp
  then have r: "round_double (60 * of_int j) = 60 * of_int j"
    using round_double_of_int [of "60 * j"] by simp
  have "float_floordiv m 60 = of_int \<lfloor>m / 60\<rfloor>"
    using float_floordiv_exact [of m 60] m r j59 by (simp add: j_def)
  then have "minutes s = j"
    using assms j0 by (simp add: minutes_def float_mod_pos m_def [symmetric] j_def py_int_def)
  then show ?thesis using j0 j59 by (simp add: j_def m_def)
qed

lemma secs_eq:
  assumes "0 \<le> valof s"
  shows "secs s = \<lfloor>c_fmod (valof s) 60\<rfloor> \<and> 0 \<le> secs s \<and> secs s \<le> 59"
proof -
  have m: "0 \<le> c_fmod (valof s) 60 \<and> c_fmod (valof s) 60 < 60"
    using c_fmod_pos [of "valof s" 60] assms by simp
  then have "secs s = \<lfloor>c_fmod (valof s) 60\<rfloor>"
    using assms by (simp add: secs_def float_mod_pos py_int_def)
  moreover have "\<lfloor>c_fmod (valof s) 60\<rfloor> \<le> 59" using m by (simp add: floor_less_iff)
  moreover have "0 \<le> \<lfloor>c_fmod (valof s) 60\<rfloor>" using m by simp
  ultimately show ?thesis by simp
qed




subsection \<open>Digits\<close>





















subsection \<open>The fields as truncations\<close>

lemma floor_div_of_int:
  assumes "0 < n"
  shows "\<lfloor>x / of_int n\<rfloor> = \<lfloor>x :: rat\<rfloor> div n"
proof (rule floor_unique)
  let ?X = "\<lfloor>x\<rfloor>" and ?q = "\<lfloor>x\<rfloor> div n"
  have n: "(0::rat) < of_int n" using assms by simp
  have dm: "?q * n + ?X mod n = ?X" by simp
  have m0: "0 \<le> ?X mod n" and m1: "?X mod n < n" using assms by simp_all
  have "?q * n \<le> ?X" using dm m0 by linarith
  then have "(of_int (?q * n) :: rat) \<le> of_int ?X" by (simp only: of_int_le_iff)
  also have "\<dots> \<le> x" by simp
  finally show "of_int ?q \<le> x / of_int n" using n by (simp add: pos_le_divide_eq)
  have "(?q + 1) * n = ?q * n + n" by (simp add: algebra_simps)
  then have "?X < (?q + 1) * n" using dm m1 by linarith
  then have "?X + 1 \<le> (?q + 1) * n" by simp
  then have "(of_int (?X + 1) :: rat) \<le> of_int ((?q + 1) * n)" by (simp only: of_int_le_iff)
  moreover have "x < of_int ?X + 1" by linarith
  then have "x < of_int (?X + 1)" by simp
  ultimately have "x < of_int ((?q + 1) * n)" by linarith
  then show "x / of_int n < of_int ?q + 1" using n by (simp add: pos_divide_less_eq)
qed

lemma hours_eq:
  assumes v: "0 \<le> valof s" and u: "valof s < 2 ^ 57"
  shows "hours s = \<lfloor>valof s / 3600\<rfloor>"
proof -
  define k where "k = \<lfloor>valof s / 3600\<rfloor>"
  have k0: "0 \<le> k" using v by (simp add: k_def)
  have "valof s / 3600 < 2 ^ 57 / 3600" using u by (simp add: divide_strict_right_mono)
  then have "of_int k < (2::rat) ^ 57 / 3600" unfolding k_def
    using of_int_floor_le [of "valof s / 3600"] by linarith
  then have "(of_int (225 * k) :: rat) < of_int (2 ^ 53)" by simp
  then have k53: "225 * k < 2 ^ 53" by (simp only: of_int_less_iff)
  have "(3600 :: rat) * of_int k = of_int (225 * k) * 2 powi 4" by simp
  then have r: "round_double (3600 * of_int k) = 3600 * of_int k"
    using round_double_repr [of "3600 * of_int k" "225 * k" 4] k53 k0 by simp
  have "k < 2 ^ 53" using k53 k0 by linarith
  then have "float_floordiv (valof s) 3600 = of_int \<lfloor>valof s / 3600\<rfloor>"
    using float_floordiv_exact [of "valof s" 3600] v r unfolding k_def by simp
  then show ?thesis using k0 by (simp add: hours_def py_int_def k_def)
qed

lemma whole_seconds:
  assumes v: "0 \<le> valof s" and u: "valof s < 2 ^ 57"
  shows "hours s * 3600 + minutes s * 60 + secs s = \<lfloor>valof s\<rfloor>"
proof -
  define X where "X = \<lfloor>valof s\<rfloor>"
  have h: "hours s = X div 3600"
    using hours_eq [OF v u] floor_div_of_int [of 3600 "valof s"] by (simp add: X_def)
  have c1: "c_fmod (valof s) 3600 = valof s - of_int (3600 * (X div 3600))"
    using c_fmod_pos [of "valof s" 3600] v floor_div_of_int [of 3600 "valof s"]
    by (simp add: X_def)
  have "\<lfloor>c_fmod (valof s) 3600 / 60\<rfloor> = \<lfloor>c_fmod (valof s) 3600\<rfloor> div 60"
    using floor_div_of_int [of 60 "c_fmod (valof s) 3600"] by simp
  also have "\<lfloor>c_fmod (valof s) 3600\<rfloor> = X - 3600 * (X div 3600)"
    unfolding c1 X_def by (simp only: floor_diff_of_int)
  finally have m: "minutes s = (X - 3600 * (X div 3600)) div 60"
    using minutes_eq [OF v] by simp
  have c2: "c_fmod (valof s) 60 = valof s - of_int (60 * (X div 60))"
    using c_fmod_pos [of "valof s" 60] v floor_div_of_int [of 60 "valof s"]
    by (simp add: X_def)
  have "\<lfloor>c_fmod (valof s) 60\<rfloor> = X - 60 * (X div 60)"
    unfolding c2 X_def by (simp only: floor_diff_of_int)
  then have e: "secs s = X - 60 * (X div 60)" using secs_eq [OF v] by simp
  define Y where "Y = X mod 3600"
  have y: "X - 3600 * (X div 3600) = Y" unfolding Y_def by (simp add: minus_mult_div_eq_mod)
  have "Y mod 60 = X mod 60" unfolding Y_def by (simp add: mod_mod_cancel)
  moreover have "60 * (Y div 60) + Y mod 60 = Y" by simp
  moreover have "60 * (X div 60) + X mod 60 = X" by simp
  ultimately have "(X div 3600) * 3600 + (Y div 60) * 60 + (X - 60 * (X div 60)) = X"
    using y by linarith
  then show ?thesis unfolding h m e y X_def [symmetric] .
qed

lemma round_double_close:
  assumes "0 < p" and "p < 1024"
  shows "round_double p \<le> p + 1 / 2 ^ 44"
proof -
  define e where "e = ulp_expo p"
  define N :: int where "N = 2 ^ nat (- e)"
  have e: "e \<le> - 43" using assms ulp_expo_small [of p] by (simp add: e_def)
  have "(2::int) ^ 43 \<le> 2 ^ nat (- e)" using e by (intro power_increasing) auto
  then have N43: "2 ^ 43 \<le> N" by (simp add: N_def)
  then have N: "0 < N" by simp
  have "(of_int ((2::int) ^ 43) :: rat) \<le> of_int N" using N43 by (simp only: of_int_le_iff)
  then have Nr: "(2::rat) ^ 43 \<le> of_int N" by simp
  have pe: "(2::rat) powi e = 1 / of_int N" using e p2_neg [of e] by (simp add: N_def)
  have rd: "round_double p = of_int (round_half_even (p * of_int N)) / of_int N"
    using assms(1) pe by (simp add: round_double_def e_def [symmetric])
  have "of_int (round_half_even (p * of_int N)) / of_int N \<le> (p * of_int N + 1 / 2) / of_int N"
    using rhe_upper [of "p * of_int N"] N by (simp add: divide_right_mono)
  also have "\<dots> = p + 1 / (2 * of_int N)" using N by (simp add: field_simps)
  also have "\<dots> \<le> p + 1 / (2 * 2 ^ 43)" using Nr N by (simp add: frac_le)
  finally show ?thesis unfolding rd by simp
qed

text \<open>
  Claim C3 as it is stated fails at the double nearest to 0.29, which is a little below 0.29:
  the product of its fractional part and 1000 is below 290, and its floor is 289; as a double
  the product is rounded to 290.0, so the milliseconds are 290 and the fields stand for 0.290,
  above the input.
\<close>

theorem millis_truncation_counterexample:
  "is_double (PyFloat 5224175567749775 (- 54))
   \<and> 0 \<le> valof (PyFloat 5224175567749775 (- 54))
   \<and> hours (PyFloat 5224175567749775 (- 54)) = 0
   \<and> minutes (PyFloat 5224175567749775 (- 54)) = 0
   \<and> secs (PyFloat 5224175567749775 (- 54)) = 0
   \<and> millis (PyFloat 5224175567749775 (- 54)) = 290
   \<and> \<lfloor>(valof (PyFloat 5224175567749775 (- 54))
         - of_int \<lfloor>valof (PyFloat 5224175567749775 (- 54))\<rfloor>) * 1000\<rfloor> = 289
   \<and> valof (PyFloat 5224175567749775 (- 54)) < reconstruct (PyFloat 5224175567749775 (- 54))
   \<and> seconds_to_srt_time (PyFloat 5224175567749775 (- 54)) = ''00:00:00,290''"
  by code_simp

text \<open>
  Claim C3, amended.  For a double from 0 up to \<open>2 ^ 57\<close>, the milliseconds are the
  truncation of the product of the fractional part and 1000 as a double, that is of the exact
  product rounded to the nearest double: they are not below the floor of the exact product,
  and not above the exact product by more than \<open>2 ^ -44\<close>.  Hours, minutes and seconds stand
  for the whole seconds of the input, so the number that the four fields stand for is less
  than one millisecond below the input and at most \<open>2 ^ -44\<close> milliseconds above it.
\<close>

theorem millis_truncation:
  assumes d: "is_double seconds" and v: "0 \<le> valof seconds" and u: "valof seconds < 2 ^ 57"
  shows "millis seconds
           = \<lfloor>round_double ((valof seconds - of_int \<lfloor>valof seconds\<rfloor>) * 1000)\<rfloor>
       \<and> \<lfloor>(valof seconds - of_int \<lfloor>valof seconds\<rfloor>) * 1000\<rfloor> \<le> millis seconds
       \<and> of_int (millis seconds)
           \<le> (valof seconds - of_int \<lfloor>valof seconds\<rfloor>) * 1000 + 1 / 2 ^ 44
       \<and> hours seconds * 3600 + minutes seconds * 60 + secs seconds = \<lfloor>valof seconds\<rfloor>
       \<and> valof seconds - 1 / 1000 < reconstruct seconds
       \<and> reconstruct seconds \<le> valof seconds + 1 / (1000 * 2 ^ 44)"
proof -
  define fr where "fr = valof seconds - of_int \<lfloor>valof seconds\<rfloor>"
  define p where "p = fr * 1000"
  have cf: "c_fmod (valof seconds) 1 = fr" using c_fmod_pos [of "valof seconds" 1] v by (simp add: fr_def)
  have f0: "0 \<le> fr" and f1: "fr < 1" by (simp_all add: fr_def) linarith
  have p0: "0 \<le> p" and p1: "p < 1000" using f0 f1 by (simp_all add: p_def)
  have r0: "0 \<le> round_double p" using p0 by (rule round_double_nonneg)
  have mi: "millis seconds = \<lfloor>round_double p\<rfloor>"
    using v r0 by (simp add: millis_def float_mul_def float_mod_pos cf p_def py_int_def)
  have lo: "of_int \<lfloor>p\<rfloor> \<le> round_double p \<and> round_double p \<le> p + 1 / 2 ^ 44"
  proof (cases "p = 0")
    case True
    then show ?thesis by (simp add: round_double_def)
  next
    case False
    then have pp: "0 < p" using p0 by simp
    have e: "ulp_expo p \<le> 0" using ulp_expo_small [of p] pp p1 by simp
    have "of_int \<lfloor>p\<rfloor> \<le> round_double p"
      using round_double_ge_int [OF pp e, of "\<lfloor>p\<rfloor>"] by simp
    then show ?thesis using round_double_close [of p] pp p1 by simp
  qed
  have a: "\<lfloor>p\<rfloor> \<le> millis seconds" unfolding mi using lo by (simp add: le_floor_iff)
  have b: "of_int (millis seconds) \<le> p + 1 / 2 ^ 44"
    unfolding mi using lo of_int_floor_le [of "round_double p"] by linarith
  have w: "hours seconds * 3600 + minutes seconds * 60 + secs seconds = \<lfloor>valof seconds\<rfloor>"
    using whole_seconds [OF v u] .
  have "(of_int (hours seconds * 3600 + minutes seconds * 60 + secs seconds) :: rat)
      = of_int \<lfloor>valof seconds\<rfloor>" using w by simp
  then have rc: "reconstruct seconds = of_int \<lfloor>valof seconds\<rfloor> + of_int (millis seconds) / 1000"
    by (simp add: reconstruct_def)
  have "p - 1 < of_int \<lfloor>p\<rfloor>" by linarith
  also have "\<dots> \<le> of_int (millis seconds)" using a by simp
  finally have c: "valof seconds - 1 / 1000 < reconstruct seconds"
    unfolding rc p_def fr_def by (simp add: field_simps)
  have e: "reconstruct seconds \<le> valof seconds + 1 / (1000 * 2 ^ 44)"
    using b unfolding rc p_def fr_def by (simp add: field_simps)
  show ?thesis using mi a b w c e unfolding p_def fr_def by simp
qed

theorem millis_truncation_witness:
  "is_double (PyFloat 5224175567749775 (- 54))
   \<and> 0 \<le> valof (PyFloat 5224175567749775 (- 54))
   \<and> valof (PyFloat 5224175567749775 (- 54)) < 2 ^ 57
   \<and> millis (PyFloat 5224175567749775 (- 54)) = 290
   \<and> valof (PyFloat 5224175567749775 (- 54)) - 1 / 1000
        < reconstruct (PyFloat 5224175567749775 (- 54))
   \<and> reconstruct (PyFloat 5224175567749775 (- 54))
        \<le> valof (PyFloat 5224175567749775 (- 54)) + 1 / (1000 * 2 ^ 44)"
proof -
  have d: "is_double (PyFloat 5224175567749775 (- 54))" by (simp add: is_double_def)
  have v: "0 \<le> valof (PyFloat 5224175567749775 (- 54))" by (simp add: valof_def)
  have u: "valof (PyFloat 5224175567749775 (- 54)) < 2 ^ 57" by (simp add: valof_def)
  have m: "millis (PyFloat 5224175567749775 (- 54)) = 290" by code_simp
  show ?thesis using d v u m millis_truncation [OF d v u] by blast
qed

end
